theory Spec2Isabelle
  imports Main "HOL-Library.Multiset" "HOL-Library.Sublist"
begin

section \<open>Diverse subgroup set discovery: the data model of dssd.py\<close>

text \<open>
  A subgroup description is a Python \<^verbatim>\<open>dict\<close> from column names to booleans. A dict keeps
  its keys in insertion order and that order is observable (iteration, \<^verbatim>\<open>str\<close>), so a
  description is an association list whose keys are pairwise distinct. The dataset is a
  data frame of boolean columns (\<^verbatim>\<open>S.astype('bool')\<close>): the ordered column names and the
  rows, each row giving a boolean for every column. Qualities are Python integers.
\<close>

type_synonym desc = "(string \<times> bool) list"

type_synonym entry = "desc \<times> int"

record dataset =
  columns :: "string list"
  rows :: "(string \<Rightarrow> bool) list"

type_synonym quality_func = "desc \<Rightarrow> dataset \<Rightarrow> int"

type_synonym params = "string \<rightharpoonup> int"

text \<open>The exceptions the code can raise: \<^verbatim>\<open>min\<close> of an empty sequence and
  \<^verbatim>\<open>list.remove\<close> of an absent item and an empty query expression (ValueError),
  \<^verbatim>\<open>del\<close> of an absent key (KeyError), a query expression that does not parse
  (SyntaxError), a query naming no column (UndefinedVariableError).\<close>

datatype error = ValueError | KeyError | SyntaxError | UndefinedVariableError

subsection \<open>Python dict and list operations\<close>

definition dict_wf :: "desc \<Rightarrow> bool" where
  "dict_wf d = distinct (map fst d)"

definition dict_keys :: "desc \<Rightarrow> string list" where
  "dict_keys d = map fst d"

text \<open>\<^verbatim>\<open>k in d\<close>\<close>

definition dict_contains :: "desc \<Rightarrow> string \<Rightarrow> bool" where
  "dict_contains d k = (k \<in> set (dict_keys d))"

text \<open>\<^verbatim>\<open>d[k] = v\<close>: an existing key keeps its position, a new key goes last.\<close>

fun dict_set :: "desc \<Rightarrow> string \<Rightarrow> bool \<Rightarrow> desc" where
  "dict_set [] k v = [(k, v)]"
| "dict_set (p # ps) k v = (if fst p = k then (k, v) # ps else p # dict_set ps k v)"

text \<open>\<^verbatim>\<open>{**a, **b}\<close>: a copy of \<open>a\<close> updated with the items of \<open>b\<close> in order.\<close>

definition dict_merge :: "desc \<Rightarrow> desc \<Rightarrow> desc" where
  "dict_merge a b = fold (\<lambda>(k, v) d. dict_set d k v) b a"

text \<open>\<^verbatim>\<open>del d[k]\<close>: KeyError when the key is absent.\<close>

definition dict_del :: "desc \<Rightarrow> string \<Rightarrow> error + desc" where
  "dict_del d k = (if dict_contains d k then Inr (filter (\<lambda>p. fst p \<noteq> k) d) else Inl KeyError)"

text \<open>Python's \<^verbatim>\<open>==\<close> on dicts ignores insertion order: the same keys with the same
  values. On tuples it is componentwise.\<close>

definition dict_eq :: "desc \<Rightarrow> desc \<Rightarrow> bool" where
  "dict_eq a b = (set a = set b)"

definition entry_eq :: "entry \<Rightarrow> entry \<Rightarrow> bool" where
  "entry_eq a b = (dict_eq (fst a) (fst b) \<and> snd a = snd b)"

text \<open>\<^verbatim>\<open>xs[:n]\<close>: a negative bound counts from the end.\<close>

definition py_slice_to :: "int \<Rightarrow> 'a list \<Rightarrow> 'a list" where
  "py_slice_to n xs = (if 0 \<le> n then take (nat n) xs else take (length xs - nat (- n)) xs)"

text \<open>\<^verbatim>\<open>min(R, key=lambda x: x[1])\<close>: the first entry of least quality; ValueError on
  an empty list.\<close>

fun py_min_by_quality :: "entry list \<Rightarrow> error + entry" where
  "py_min_by_quality [] = Inl ValueError"
| "py_min_by_quality (x # xs) = Inr (fold (\<lambda>y m. if snd y < snd m then y else m) xs x)"

text \<open>\<^verbatim>\<open>R.remove(x)\<close>: drops the first item equal to \<open>x\<close>; ValueError when there is
  none.\<close>

fun list_remove :: "entry list \<Rightarrow> entry \<Rightarrow> error + entry list" where
  "list_remove [] x = Inl ValueError"
| "list_remove (y # ys) x =
     (if entry_eq y x then Inr ys
      else (case list_remove ys x of Inl e \<Rightarrow> Inl e | Inr zs \<Rightarrow> Inr (y # zs)))"

text \<open>\<^verbatim>\<open>selected.sort(key=lambda x: x[1], reverse=True)\<close>: Python reverses the list,
  sorts it stably in ascending key order and reverses it again, so that equal keys keep
  their original order.\<close>

definition sort_by_quality_reverse :: "entry list \<Rightarrow> entry list" where
  "sort_by_quality_reverse xs = rev (sort_key snd (rev xs))"

subsection \<open>The string forms the code builds\<close>

text \<open>Column names are identifiers (the query expression needs them to be), so
  \<^verbatim>\<open>repr\<close> of a name is the name between single quotes.\<close>

definition repr_bool :: "bool \<Rightarrow> string" where
  "repr_bool b = (if b then ''True'' else ''False'')"

definition repr_str :: "string \<Rightarrow> string" where
  "repr_str s = [CHR 0x27] @ s @ [CHR 0x27]"

fun str_join :: "string \<Rightarrow> string list \<Rightarrow> string" where
  "str_join sep [] = []"
| "str_join sep [x] = x"
| "str_join sep (x # y # ys) = x @ sep @ str_join sep (y # ys)"

text \<open>\<^verbatim>\<open>str(subgroup)\<close>\<close>

definition str_dict :: "desc \<Rightarrow> string" where
  "str_dict d = ''{'' @ str_join '', '' (map (\<lambda>(k, v). repr_str k @ '': '' @ repr_bool v) d) @ ''}''"

text \<open>\<^verbatim>\<open>' and '.join([f'{k}=={repr(v)}' for k, v in subgroup.items()])\<close>\<close>

definition query_expr :: "desc \<Rightarrow> string" where
  "query_expr d = str_join '' and '' (map (\<lambda>(k, v). k @ ''=='' @ repr_bool v) d)"

subsection \<open>Column names in a query expression\<close>

text \<open>The code pastes each column name into the query expression as it is, so the name
  stands for its column only when it is a plain identifier: a letter or underscore
  followed by letters, digits and underscores, and no Python keyword. On a name such as
  \<^verbatim>\<open>a b\<close> the expression \<^verbatim>\<open>a b==True\<close> does not parse and the query raises
  SyntaxError. Names are taken to be ASCII.\<close>

definition ident_start :: "char \<Rightarrow> bool" where
  "ident_start c = (c \<in> set ''abcdefghijklmnopqrstuvwxyzABCDEFGHIJKLMNOPQRSTUVWXYZ_'')"

definition ident_char :: "char \<Rightarrow> bool" where
  "ident_char c = (ident_start c \<or> c \<in> set ''0123456789'')"

definition py_keywords :: "string list" where
  "py_keywords = [''False'', ''None'', ''True'', ''and'', ''as'', ''assert'', ''async'',
     ''await'', ''break'', ''class'', ''continue'', ''def'', ''del'', ''elif'', ''else'',
     ''except'', ''finally'', ''for'', ''from'', ''global'', ''if'', ''import'', ''in'', ''is'',
     ''lambda'', ''nonlocal'', ''not'', ''or'', ''pass'', ''raise'', ''return'', ''try'',
     ''while'', ''with'', ''yield'']"

definition py_identifier :: "string \<Rightarrow> bool" where
  "py_identifier s =
     (case s of
        [] \<Rightarrow> False
      | c # cs \<Rightarrow> ident_start c \<and> list_all ident_char cs \<and> s \<notin> set py_keywords)"

text \<open>A dataset whose column names are all plain identifiers.\<close>

definition plain_columns :: "dataset \<Rightarrow> bool" where
  "plain_columns data = list_all py_identifier (columns data)"

subsection \<open>The coverage query\<close>

text \<open>A row satisfies a description when it has the required value in every named
  column; the rows a description matches are the ones a successful query returns.\<close>

definition satisfies :: "(string \<Rightarrow> bool) \<Rightarrow> desc \<Rightarrow> bool" where
  "satisfies r d = list_all (\<lambda>(k, v). r k = v) d"

definition matches :: "dataset \<Rightarrow> desc \<Rightarrow> (string \<Rightarrow> bool) list" where
  "matches data d = filter (\<lambda>r. satisfies r d) (rows data)"

text \<open>\<^verbatim>\<open>data.query(expr)\<close> on the expression built from a description: the query
  evaluator refuses an empty expression before parsing it (ValueError: expr cannot be an
  empty string), then parses it (SyntaxError when a name in it is no plain identifier),
  then looks the names up (UndefinedVariableError for a name that is no column);
  otherwise it returns the rows where every equality test holds. Only for plain
  identifiers is the error the one pandas raises in every case; the properties below that
  speak of a query's outcome assume such names.\<close>

definition query :: "dataset \<Rightarrow> desc \<Rightarrow> error + (string \<Rightarrow> bool) list" where
  "query data d =
     (if query_expr d = [] then Inl ValueError
      else if \<not> list_all py_identifier (dict_keys d) then Inl SyntaxError
      else if \<not> list_all (\<lambda>k. k \<in> set (columns data)) (dict_keys d) then Inl UndefinedVariableError
      else Inr (matches data d))"

text \<open>\<^verbatim>\<open>len(data.query(...))\<close>\<close>

definition coverage :: "dataset \<Rightarrow> desc \<Rightarrow> error + nat" where
  "coverage data d = (case query data d of Inl e \<Rightarrow> Inl e | Inr rs \<Rightarrow> Inr (length rs))"

section \<open>The functions of dssd.py\<close>

subsection \<open>generate_refinements\<close>

text \<open>The inner loop over \<^verbatim>\<open>[True, False]\<close> for one column, appending to
  \<open>refinements\<close>.\<close>

fun refine_values :: "desc \<Rightarrow> int \<Rightarrow> dataset \<Rightarrow> string \<Rightarrow> bool list \<Rightarrow> desc list \<Rightarrow> error + desc list" where
  "refine_values subgroup mincov data column [] refinements = Inr refinements"
| "refine_values subgroup mincov data column (v # vs) refinements =
     (let new_condition = [(column, v)];
          refined_subgroup = dict_merge subgroup new_condition
      in case coverage data refined_subgroup of
           Inl e \<Rightarrow> Inl e
         | Inr n \<Rightarrow> refine_values subgroup mincov data column vs
                     (if mincov \<le> int n then refinements @ [refined_subgroup] else refinements))"

text \<open>The outer loop over \<^verbatim>\<open>data.columns\<close>.\<close>

fun refine_columns :: "desc \<Rightarrow> int \<Rightarrow> dataset \<Rightarrow> string list \<Rightarrow> desc list \<Rightarrow> error + desc list" where
  "refine_columns subgroup mincov data [] refinements = Inr refinements"
| "refine_columns subgroup mincov data (column # cs) refinements =
     (if dict_contains subgroup column then refine_columns subgroup mincov data cs refinements
      else case refine_values subgroup mincov data column [True, False] refinements of
             Inl e \<Rightarrow> Inl e
           | Inr refinements' \<Rightarrow> refine_columns subgroup mincov data cs refinements')"

definition generate_refinements :: "desc \<Rightarrow> int \<Rightarrow> dataset \<Rightarrow> error + desc list" where
  "generate_refinements subgroup mincov data = refine_columns subgroup mincov data (columns data) []"

subsection \<open>update_top_k\<close>

text \<open>The list \<open>R\<close> is mutated in place; the model returns the new list.\<close>

definition update_top_k :: "entry list \<Rightarrow> int \<Rightarrow> desc \<Rightarrow> int \<Rightarrow> error + entry list" where
  "update_top_k R j candidate quality =
     (if int (length R) < j then Inr (R @ [(candidate, quality)])
      else case py_min_by_quality R of
             Inl e \<Rightarrow> Inl e
           | Inr m \<Rightarrow>
               (let min_quality = snd m in
                if min_quality < quality then
                  (case py_min_by_quality R of
                     Inl e \<Rightarrow> Inl e
                   | Inr m' \<Rightarrow>
                       (case list_remove R m' of
                          Inl e \<Rightarrow> Inl e
                        | Inr R' \<Rightarrow> Inr (R' @ [(candidate, quality)])))
                else Inr R))"

subsection \<open>subgroup_selection\<close>

text \<open>\<^verbatim>\<open>params.get('beam_width', len(selected))\<close>\<close>

definition params_get :: "params \<Rightarrow> string \<Rightarrow> int \<Rightarrow> int" where
  "params_get p key dflt = (case p key of None \<Rightarrow> dflt | Some v \<Rightarrow> v)"

definition subgroup_selection :: "desc list \<Rightarrow> quality_func \<Rightarrow> params \<Rightarrow> dataset \<Rightarrow> desc list" where
  "subgroup_selection candidates quality_func ps data =
     (let selected = map (\<lambda>candidate. (candidate, quality_func candidate data)) candidates;
          selected = sort_by_quality_reverse selected
      in map fst (py_slice_to (params_get ps ''beam_width'' (int (length selected))) selected))"

subsection \<open>apply_dominance_pruning\<close>

text \<open>The loop over the keys of the original description, carrying the working
  description and the quality to beat; \<^verbatim>\<open>break\<close> returns at once.\<close>

fun pruning_loop :: "string list \<Rightarrow> desc \<Rightarrow> int \<Rightarrow> quality_func \<Rightarrow> dataset \<Rightarrow> error + desc" where
  "pruning_loop [] pruned_subgroup current_quality quality_func data = Inr pruned_subgroup"
| "pruning_loop (condition # cs) pruned_subgroup current_quality quality_func data =
     (case dict_del pruned_subgroup condition of
        Inl e \<Rightarrow> Inl e
      | Inr temp_subgroup \<Rightarrow>
          (let temp_quality = quality_func temp_subgroup data;
               pruned_subgroup' = (if current_quality \<le> temp_quality then temp_subgroup else pruned_subgroup);
               current_quality' = (if current_quality \<le> temp_quality then temp_quality else current_quality)
           in if length (dict_keys pruned_subgroup') = 1 then Inr pruned_subgroup'
              else pruning_loop cs pruned_subgroup' current_quality' quality_func data))"

definition apply_dominance_pruning :: "entry \<Rightarrow> quality_func \<Rightarrow> dataset \<Rightarrow> error + desc" where
  "apply_dominance_pruning subgroup quality_func data =
     (let current_quality = snd subgroup;
          pruned_subgroup = fst subgroup
      in if length (dict_keys pruned_subgroup) = 1 then Inr pruned_subgroup
         else pruning_loop (dict_keys (fst subgroup)) pruned_subgroup current_quality quality_func data)"

subsection \<open>remove_duplicates\<close>

fun dedup_loop :: "desc list \<Rightarrow> string set \<Rightarrow> desc list \<Rightarrow> desc list" where
  "dedup_loop [] seen_descriptions unique_subgroups = unique_subgroups"
| "dedup_loop (subgroup # rest) seen_descriptions unique_subgroups =
     (let description = str_dict subgroup
      in if description \<notin> seen_descriptions
         then dedup_loop rest (insert description seen_descriptions) (unique_subgroups @ [subgroup])
         else dedup_loop rest seen_descriptions unique_subgroups)"

definition remove_duplicates :: "desc list \<Rightarrow> desc list" where
  "remove_duplicates subgroups = dedup_loop subgroups {} []"

subsection \<open>dssd\<close>

text \<open>\<^verbatim>\<open>for b in Beam: Cands.extend(generate_refinements(b, mincov, S))\<close>\<close>

fun extend_cands :: "desc list \<Rightarrow> int \<Rightarrow> dataset \<Rightarrow> desc list \<Rightarrow> error + desc list" where
  "extend_cands [] mincov S Cands = Inr Cands"
| "extend_cands (b # Beam) mincov S Cands =
     (case generate_refinements b mincov S of
        Inl e \<Rightarrow> Inl e
      | Inr rs \<Rightarrow> extend_cands Beam mincov S (Cands @ rs))"

text \<open>\<^verbatim>\<open>for c in Cands: update_top_k(R, j, c, phi(c, S))\<close>\<close>

fun update_all :: "entry list \<Rightarrow> int \<Rightarrow> quality_func \<Rightarrow> dataset \<Rightarrow> desc list \<Rightarrow> error + entry list" where
  "update_all R j \<phi> S [] = Inr R"
| "update_all R j \<phi> S (c # Cands) =
     (case update_top_k R j c (\<phi> c S) of
        Inl e \<Rightarrow> Inl e
      | Inr R' \<Rightarrow> update_all R' j \<phi> S Cands)"

text \<open>The \<^verbatim>\<open>while depth <= maxdepth\<close> loop; its result is the retained list \<open>R\<close>.\<close>

function dssd_loop ::
  "dataset \<Rightarrow> quality_func \<Rightarrow> int \<Rightarrow> int \<Rightarrow> int \<Rightarrow> params \<Rightarrow> int \<Rightarrow> entry list \<Rightarrow> desc list \<Rightarrow> error + entry list" where
  "dssd_loop S \<phi> j mincov maxdepth P depth R Beam =
     (if depth \<le> maxdepth then
        (case extend_cands Beam mincov S [] of
           Inl e \<Rightarrow> Inl e
         | Inr Cands \<Rightarrow>
             (case update_all R j \<phi> S Cands of
                Inl e \<Rightarrow> Inl e
              | Inr R' \<Rightarrow>
                  dssd_loop S \<phi> j mincov maxdepth P (depth + 1) R' (subgroup_selection Cands \<phi> P S)))
      else Inr R)"
  by pat_completeness auto
termination
  by (relation "measure (\<lambda>(S, \<phi>, j, mincov, maxdepth, P, depth, R, Beam). nat (maxdepth + 1 - depth))") auto

declare dssd_loop.simps [simp del]

text \<open>\<^verbatim>\<open>[apply_dominance_pruning(r, phi, S) for r in R]\<close>\<close>

fun prune_all :: "entry list \<Rightarrow> quality_func \<Rightarrow> dataset \<Rightarrow> error + desc list" where
  "prune_all [] \<phi> S = Inr []"
| "prune_all (r # R) \<phi> S =
     (case apply_dominance_pruning r \<phi> S of
        Inl e \<Rightarrow> Inl e
      | Inr p \<Rightarrow> (case prune_all R \<phi> S of Inl e \<Rightarrow> Inl e | Inr ps \<Rightarrow> Inr (p # ps)))"

text \<open>The retained set after the loop, dominance pruning and duplicate removal: the
  value of \<open>R\<close> that the final selection receives.\<close>

definition dssd_retained ::
  "dataset \<Rightarrow> quality_func \<Rightarrow> int \<Rightarrow> int \<Rightarrow> int \<Rightarrow> params \<Rightarrow> error + desc list" where
  "dssd_retained S \<phi> j mincov maxdepth P =
     (case dssd_loop S \<phi> j mincov maxdepth P 1 [] [[]] of
        Inl e \<Rightarrow> Inl e
      | Inr R \<Rightarrow>
          (case prune_all R \<phi> S of
             Inl e \<Rightarrow> Inl e
           | Inr R' \<Rightarrow> Inr (remove_duplicates R')))"

definition dssd ::
  "dataset \<Rightarrow> quality_func \<Rightarrow> int \<Rightarrow> int \<Rightarrow> int \<Rightarrow> int \<Rightarrow> params \<Rightarrow> error + desc list" where
  "dssd S \<phi> j k mincov maxdepth P =
     (case dssd_retained S \<phi> j mincov maxdepth P of
        Inl e \<Rightarrow> Inl e
      | Inr R \<Rightarrow> Inr (py_slice_to k (subgroup_selection R \<phi> P S)))"

subsection \<open>A run of the top-k list\<close>

text \<open>The entries that a call of update\_top\_k evicts are the ones the list held before
  the call and holds no more after it. A run feeds a sequence of (candidate, quality)
  insertions to update\_top\_k, as the loop of dssd does, and collects with the list every
  entry evicted on the way.\<close>

definition evicted_by :: "entry list \<Rightarrow> entry list \<Rightarrow> entry multiset" where
  "evicted_by R R' = mset R - mset R'"

fun top_k_run ::
  "int \<Rightarrow> entry list \<Rightarrow> entry multiset \<Rightarrow> entry list \<Rightarrow> error + (entry list \<times> entry multiset)" where
  "top_k_run j R E [] = Inr (R, E)"
| "top_k_run j R E (x # ins) =
     (case update_top_k R j (fst x) (snd x) of
        Inl e \<Rightarrow> Inl e
      | Inr R' \<Rightarrow> top_k_run j R' (E + evicted_by R R') ins)"

subsection \<open>Descriptions the search handles\<close>

text \<open>A beam member is a dict over columns of the dataset; a candidate is moreover
  not empty and matches at least \<open>mincov\<close> rows.\<close>

definition beam_member :: "dataset \<Rightarrow> desc \<Rightarrow> bool" where
  "beam_member S d = (dict_wf d \<and> set (dict_keys d) \<subseteq> set (columns S))"

definition candidate :: "dataset \<Rightarrow> int \<Rightarrow> desc \<Rightarrow> bool" where
  "candidate S mincov d = (d \<noteq> [] \<and> beam_member S d \<and> mincov \<le> int (length (matches S d)))"

subsection \<open>Example inputs\<close>

text \<open>Ten rows over two columns: \<open>A\<close> holds in rows 0 to 6, \<open>B\<close> in rows 3 to 9.\<close>

definition example_data :: dataset where
  "example_data = \<lparr>columns = [''A'', ''B''],
     rows = map (\<lambda>i c. if c = ''A'' then i < 7 else if c = ''B'' then 3 \<le> i else False) [0..<10]\<rparr>"

text \<open>A quality function that counts the matching rows, one that is constantly zero, and
  the parameter dict \<^verbatim>\<open>{'beam_width': w}\<close>.\<close>

definition coverage_quality :: quality_func where
  "coverage_quality d data = int (length (matches data d))"

definition zero_quality :: quality_func where
  "zero_quality d data = 0"

definition beam_params :: "int \<Rightarrow> params" where
  "beam_params w = [''beam_width'' \<mapsto> w]"

text \<open>One row over one column whose name, \<^verbatim>\<open>a b\<close>, is no plain identifier.\<close>

definition spaced_name_data :: dataset where
  "spaced_name_data = \<lparr>columns = [''a b''], rows = [\<lambda>c. True]\<rparr>"

section \<open>Properties\<close>

subsection \<open>Dicts, query expressions and matching rows\<close>

lemma dict_set_append: "k \<notin> set (map fst d) \<Longrightarrow> dict_set d k v = d @ [(k, v)]"
  by (induction d) auto

lemma dict_merge_single:
  "\<not> dict_contains D c \<Longrightarrow> dict_merge D [(c, v)] = D @ [(c, v)]"
  by (simp add: dict_merge_def dict_contains_def dict_keys_def dict_set_append)

lemma str_join_Nil: "str_join sep xs = [] \<Longrightarrow> \<forall>x\<in>set xs. x \<noteq> [] \<Longrightarrow> xs = []"
  by (induction sep xs rule: str_join.induct) auto

lemma query_expr_Nil: "query_expr d = [] \<longleftrightarrow> d = []"
proof
  assume h: "query_expr d = []"
  have "\<forall>x\<in>set (map (\<lambda>(k, v). k @ ''=='' @ repr_bool v) d). x \<noteq> []"
    by auto
  with h have "map (\<lambda>(k, v). k @ ''=='' @ repr_bool v) d = []"
    unfolding query_expr_def by (rule str_join_Nil)
  then show "d = []" by simp
next
  assume "d = []"
  then show "query_expr d = []" by (simp add: query_expr_def)
qed

lemma satisfies_iff: "satisfies r d = (\<forall>(k, v)\<in>set d. r k = v)"
  by (simp add: satisfies_def list_all_iff)

lemma matches_append_single:
  "matches data (D @ [(c, v)]) = filter (\<lambda>r. r c = v) (matches data D)"
  by (simp add: matches_def satisfies_def conj_commute)

lemma query_ok:
  "d \<noteq> [] \<Longrightarrow> list_all py_identifier (dict_keys d) \<Longrightarrow>
   set (dict_keys d) \<subseteq> set (columns data) \<Longrightarrow> query data d = Inr (matches data d)"
  by (auto simp: query_def query_expr_Nil list_all_iff)

lemma coverage_ok:
  "d \<noteq> [] \<Longrightarrow> list_all py_identifier (dict_keys d) \<Longrightarrow>
   set (dict_keys d) \<subseteq> set (columns data) \<Longrightarrow>
   coverage data d = Inr (length (matches data d))"
  by (simp add: coverage_def query_ok)

lemma plain_columns_keys:
  "plain_columns data \<Longrightarrow> set (dict_keys d) \<subseteq> set (columns data) \<Longrightarrow>
   list_all py_identifier (dict_keys d)"
  by (auto simp: plain_columns_def list_all_iff)

lemma coverage_Inr:
  assumes "coverage data d = Inr n"
  shows "d \<noteq> [] \<and> list_all py_identifier (dict_keys d)
       \<and> set (dict_keys d) \<subseteq> set (columns data) \<and> n = length (matches data d)"
  using assms
  by (auto simp: coverage_def query_def query_expr_Nil list_all_iff split: if_splits)






lemma example_plain_columns: "plain_columns example_data"
  by code_simp

lemma example_spaced_name:
  "generate_refinements [] 1 spaced_name_data = Inl SyntaxError"
  by code_simp


lemma example_coverage_A: "coverage example_data [(''A'', True)] = Inr 7"
  by code_simp

lemma example_coverage_AB:
  "coverage example_data (dict_merge [(''A'', True)] [(''B'', True)]) = Inr 4"
  by code_simp

subsection \<open>The coverage query on the empty description\<close>




subsection \<open>Coverage is antitone\<close>

text \<open>
  Claim C6: for every dataset, description \<open>D\<close> and condition on a column \<open>c\<close> that
  \<open>D\<close> does not mention, the rows matching the extended description
  \<^verbatim>\<open>{**D, c: v}\<close> are the rows matching \<open>D\<close> that also have \<open>v\<close> in column \<open>c\<close>:
  a subset of the rows matching \<open>D\<close>, and no more of them; whenever both coverage queries
  return, the extended description's count is the smaller one.
\<close>

theorem coverage_antitone:
  assumes "\<not> dict_contains D c"
  shows "matches data (dict_merge D [(c, v)]) = filter (\<lambda>r. r c = v) (matches data D)
       \<and> set (matches data (dict_merge D [(c, v)])) \<subseteq> set (matches data D)
       \<and> length (matches data (dict_merge D [(c, v)])) \<le> length (matches data D)
       \<and> (\<forall>n n'. coverage data D = Inr n \<and> coverage data (dict_merge D [(c, v)]) = Inr n'
              \<longrightarrow> n' \<le> n)"
proof -
  have eq: "matches data (dict_merge D [(c, v)]) = filter (\<lambda>r. r c = v) (matches data D)"
    using assms by (simp add: dict_merge_single matches_append_single)
  have cov: "n' \<le> n"
    if "coverage data D = Inr n" "coverage data (dict_merge D [(c, v)]) = Inr n'" for n n'
  proof -
    from that have "n = length (matches data D)"
      and "n' = length (matches data (dict_merge D [(c, v)]))"
      by (auto simp: coverage_def query_def split: if_splits)
    then show ?thesis by (simp add: eq)
  qed
  show ?thesis using eq cov by auto
qed

theorem coverage_antitone_witness:
  "coverage example_data [(''A'', True)] = Inr 7
   \<and> coverage example_data (dict_merge [(''A'', True)] [(''B'', True)]) = Inr 4
   \<and> length (matches example_data (dict_merge [(''A'', True)] [(''B'', True)]))
       \<le> length (matches example_data [(''A'', True)])"
proof -
  have "\<not> dict_contains [(''A'', True)] ''B''"
    by (simp add: dict_contains_def dict_keys_def)
  from coverage_antitone [OF this, of example_data True] show ?thesis
    by (simp add: example_coverage_A example_coverage_AB)
qed

subsection \<open>Sorting, slicing and subgroup selection\<close>

lemma sort_by_quality_reverse_mset: "mset (sort_by_quality_reverse xs) = mset xs"
  by (simp add: sort_by_quality_reverse_def)

lemma sort_by_quality_reverse_length: "length (sort_by_quality_reverse xs) = length xs"
  by (simp add: sort_by_quality_reverse_def)

lemma sort_by_quality_reverse_set: "set (sort_by_quality_reverse xs) = set xs"
  by (simp add: sort_by_quality_reverse_def)

lemma sort_by_quality_reverse_sorted:
  "sorted_wrt (\<lambda>a b. snd b \<le> snd a) (sort_by_quality_reverse xs)"
proof -
  have "sorted (map snd (sort_key snd (rev xs)))"
    by (rule sorted_sort_key)
  then have "sorted_wrt (\<lambda>a b. snd a \<le> snd b) (sort_key snd (rev xs))"
    by (simp add: sorted_map)
  then show ?thesis
    by (simp add: sort_by_quality_reverse_def sorted_wrt_rev)
qed

lemma sort_by_quality_reverse_stable:
  "filter (\<lambda>e. snd e = q) (sort_by_quality_reverse xs) = filter (\<lambda>e. snd e = q) xs"
proof -
  have "filter (\<lambda>e. snd e = q) (sort_key snd (rev xs)) = filter (\<lambda>e. snd e = q) (rev xs)"
    by (rule sort_key_stable)
  then show ?thesis
    by (simp add: sort_by_quality_reverse_def rev_filter [symmetric])
qed

lemma py_slice_to_set: "set (py_slice_to n xs) \<subseteq> set xs"
  by (auto simp: py_slice_to_def dest: in_set_takeD)

lemma py_slice_to_length: "0 \<le> n \<Longrightarrow> length (py_slice_to n xs) = min (nat n) (length xs)"
  by (simp add: py_slice_to_def min.commute)

lemma py_slice_to_prefix: "prefix (py_slice_to n xs) xs"
  by (simp add: py_slice_to_def take_is_prefix)

lemma subgroup_selection_set: "set (subgroup_selection cands \<phi> ps data) \<subseteq> set cands"
proof -
  have "set (map fst (py_slice_to n (sort_by_quality_reverse (map (\<lambda>c. (c, \<phi> c data)) cands))))
        \<subseteq> set cands" for n
    using py_slice_to_set [of n "sort_by_quality_reverse (map (\<lambda>c. (c, \<phi> c data)) cands)"]
    by (auto simp: sort_by_quality_reverse_set)
  then show ?thesis
    by (simp add: subgroup_selection_def Let_def)
qed

text \<open>
  Claim C9, as stated: for every candidate list and every parameter dict that contains
  \<^verbatim>\<open>beam_width\<close>, subgroup\_selection returns exactly min(beam\_width, number of
  candidates) descriptions. It fails for a negative width: the slice
  \<^verbatim>\<open>selected[:-1]\<close> of three candidates keeps two of them.
\<close>

theorem subgroup_selection_negative_width_counterexample:
  "int (length (subgroup_selection [[(''A'', True)], [(''B'', True)], [(''A'', False)]]
          coverage_quality (beam_params (- 1)) example_data))
   \<noteq> min (- 1) (int (length [[(''A'', True)], [(''B'', True)], [(''A'', False)]]))"
  by (simp add: subgroup_selection_def py_slice_to_def params_get_def beam_params_def
      sort_by_quality_reverse_length)

text \<open>
  Claim C9, amended: for every candidate list and every parameter dict that contains
  \<^verbatim>\<open>beam_width\<close>, subgroup\_selection returns the leading part of the ranking of the
  candidates, the ranking being the one rearrangement of the candidates that is in
  descending order of the quality computed by the quality function and keeps candidates
  of equal quality in their input order: its first min(beam\_width, number of candidates)
  entries when \<^verbatim>\<open>beam_width\<close> is not negative, and all but its last
  \<open>|beam_width|\<close> entries when it is negative. So the result is in descending order
  of quality, and its candidates of any one quality are an initial part of the input's
  candidates of that quality.
\<close>

theorem subgroup_selection_sorted_prefix:
  assumes "ps ''beam_width'' = Some w"
  shows "\<exists>ranked. mset ranked = mset cands
           \<and> sorted_wrt (\<lambda>a b. \<phi> b data \<le> \<phi> a data) ranked
           \<and> (\<forall>q. filter (\<lambda>c. \<phi> c data = q) ranked = filter (\<lambda>c. \<phi> c data = q) cands)
           \<and> subgroup_selection cands \<phi> ps data
               = (if 0 \<le> w then take (nat w) ranked else take (length cands - nat (- w)) ranked)
           \<and> (0 \<le> w \<longrightarrow> length (subgroup_selection cands \<phi> ps data) = min (nat w) (length cands))
           \<and> sorted_wrt (\<lambda>a b. \<phi> b data \<le> \<phi> a data) (subgroup_selection cands \<phi> ps data)
           \<and> (\<forall>q. prefix (filter (\<lambda>c. \<phi> c data = q) (subgroup_selection cands \<phi> ps data))
                         (filter (\<lambda>c. \<phi> c data = q) cands))"
proof -
  define scored where "scored = map (\<lambda>c. (c, \<phi> c data)) cands"
  define entries where "entries = sort_by_quality_reverse scored"
  define ranked where "ranked = map fst entries"
  have len_ranked: "length ranked = length cands"
    by (simp add: ranked_def entries_def scored_def sort_by_quality_reverse_length)
  have sel: "subgroup_selection cands \<phi> ps data = py_slice_to w ranked"
    using assms
    by (simp add: subgroup_selection_def Let_def params_get_def scored_def entries_def
        ranked_def py_slice_to_def take_map)
  have snd_fst: "snd e = \<phi> (fst e) data" if "e \<in> set entries" for e
    using that by (auto simp: entries_def scored_def sort_by_quality_reverse_set)
  have perm: "mset ranked = mset cands"
  proof -
    have "mset ranked = image_mset fst (mset entries)"
      by (simp add: ranked_def)
    also have "\<dots> = image_mset fst (mset scored)"
      by (simp add: entries_def sort_by_quality_reverse_mset)
    also have "\<dots> = mset (map fst scored)"
      by simp
    also have "map fst scored = cands"
      by (simp add: scored_def comp_def)
    finally show ?thesis .
  qed
  have "sorted_wrt (\<lambda>a b. snd b \<le> snd a) entries"
    unfolding entries_def by (rule sort_by_quality_reverse_sorted)
  then have "sorted_wrt (\<lambda>a b. \<phi> (fst b) data \<le> \<phi> (fst a) data) entries"
  proof (rule sorted_wrt_mono_rel [rotated])
    fix a b
    assume "a \<in> set entries" "b \<in> set entries" "snd b \<le> snd a"
    then show "\<phi> (fst b) data \<le> \<phi> (fst a) data"
      by (simp add: snd_fst)
  qed
  then have srt: "sorted_wrt (\<lambda>a b. \<phi> b data \<le> \<phi> a data) ranked"
    by (simp add: ranked_def sorted_wrt_map)
  have stab: "filter (\<lambda>c. \<phi> c data = q) ranked = filter (\<lambda>c. \<phi> c data = q) cands" for q
  proof -
    have "filter (\<lambda>e. \<phi> (fst e) data = q) entries = filter (\<lambda>e. snd e = q) entries"
      by (rule filter_cong) (simp_all add: snd_fst)
    also have "\<dots> = filter (\<lambda>e. snd e = q) scored"
      unfolding entries_def by (rule sort_by_quality_reverse_stable)
    finally have "map fst (filter (\<lambda>e. \<phi> (fst e) data = q) entries)
                  = filter (\<lambda>c. \<phi> c data = q) cands"
      by (simp add: scored_def filter_map comp_def)
    then show ?thesis
      by (simp add: ranked_def filter_map comp_def)
  qed
  have cut: "py_slice_to w ranked
             = (if 0 \<le> w then take (nat w) ranked else take (length cands - nat (- w)) ranked)"
    by (simp add: py_slice_to_def len_ranked)
  have len: "0 \<le> w \<longrightarrow> length (py_slice_to w ranked) = min (nat w) (length cands)"
    by (simp add: py_slice_to_length len_ranked)
  have srt_cut: "sorted_wrt (\<lambda>a b. \<phi> b data \<le> \<phi> a data) (py_slice_to w ranked)"
    using srt by (simp add: py_slice_to_def sorted_wrt_take)
  have pre: "prefix (filter (\<lambda>c. \<phi> c data = q) (py_slice_to w ranked))
                    (filter (\<lambda>c. \<phi> c data = q) cands)" for q
    using filter_mono_prefix [OF py_slice_to_prefix [of w ranked], of "\<lambda>c. \<phi> c data = q"]
    by (simp add: stab)
  show ?thesis
    unfolding sel using perm srt stab cut len srt_cut pre by blast
qed

lemma example_selection:
  "subgroup_selection [[(''A'', False)], [(''A'', True)], [(''B'', True)]]
     coverage_quality (beam_params 2) example_data = [[(''A'', True)], [(''B'', True)]]"
  by code_simp

theorem subgroup_selection_sorted_prefix_witness:
  "subgroup_selection [[(''A'', False)], [(''A'', True)], [(''B'', True)]]
     coverage_quality (beam_params 2) example_data = [[(''A'', True)], [(''B'', True)]]
   \<and> length (subgroup_selection [[(''A'', False)], [(''A'', True)], [(''B'', True)]]
       coverage_quality (beam_params 2) example_data) = min (nat 2) 3"
proof -
  have "beam_params 2 ''beam_width'' = Some 2"
    by (simp add: beam_params_def)
  from subgroup_selection_sorted_prefix [where ps = "beam_params 2" and w = 2
      and cands = "[[(''A'', False)], [(''A'', True)], [(''B'', True)]]"
      and \<phi> = coverage_quality and data = example_data, OF this]
  show ?thesis
    by (auto simp: example_selection)
qed

subsection \<open>Duplicate removal\<close>

text \<open>
  Claim C3: remove\_duplicates keeps only the first of two descriptions that hold the same
  (attribute, value) pairs inserted in different orders. The code compares the
  \<^verbatim>\<open>str\<close> of the dicts, which lists the items in insertion order, and keeps both:
  evaluated here on \<^verbatim>\<open>[{'a': True, 'b': False}, {'b': False, 'a': True}]\<close>, two
  dicts that Python's own \<^verbatim>\<open>==\<close> holds equal.
\<close>

theorem remove_duplicates_insertion_order:
  "dict_eq [(''a'', True), (''b'', False)] [(''b'', False), (''a'', True)]
   \<and> remove_duplicates [[(''a'', True), (''b'', False)], [(''b'', False), (''a'', True)]]
       = [[(''a'', True), (''b'', False)], [(''b'', False), (''a'', True)]]"
  by (simp add: dict_eq_def remove_duplicates_def str_dict_def repr_str_def repr_bool_def insert_commute)

subsection \<open>Dominance pruning\<close>

lemma dict_del_ok:
  "dict_contains d k \<Longrightarrow> dict_del d k = Inr (filter (\<lambda>p. fst p \<noteq> k) d)"
  by (simp add: dict_del_def)

lemma dict_wf_filter: "dict_wf d \<Longrightarrow> dict_wf (filter P d)"
  by (simp add: dict_wf_def distinct_map_filter)

lemma dict_keys_filter:
  "set (dict_keys (filter (\<lambda>p. fst p \<noteq> k) d)) = set (dict_keys d) - {k}"
  by (auto simp: dict_keys_def)

lemma length_filter_key:
  "distinct (map fst d) \<Longrightarrow> k \<in> set (map fst d) \<Longrightarrow>
   Suc (length (filter (\<lambda>p. fst p \<noteq> k) d)) = length d"
proof (induction d)
  case Nil
  then show ?case by simp
next
  case (Cons p d)
  show ?case
  proof (cases "fst p = k")
    case True
    with Cons.prems have "k \<notin> set (map fst d)" by auto
    then have "filter (\<lambda>p. fst p \<noteq> k) d = d"
      by (auto simp: filter_id_conv)
    with True show ?thesis by simp
  next
    case False
    with Cons show ?thesis by auto
  qed
qed

lemma pruning_loop_result:
  assumes "dict_wf pruned" and "2 \<le> length pruned"
    and "set cs \<subseteq> set (dict_keys pruned)" and "distinct cs"
  shows "\<exists>p. pruning_loop cs pruned cur \<phi> data = Inr p \<and> p \<noteq> [] \<and> set p \<subseteq> set pruned
           \<and> (cur = \<phi> pruned data \<longrightarrow> cur \<le> \<phi> p data)"
  using assms
proof (induction cs arbitrary: pruned cur)
  case Nil
  then show ?case by auto
next
  case (Cons c cs)
  define temp where "temp = filter (\<lambda>p. fst p \<noteq> c) pruned"
  from Cons.prems have c_in: "dict_contains pruned c"
    by (simp add: dict_contains_def)
  then have del: "dict_del pruned c = Inr temp"
    by (simp add: dict_del_ok temp_def)
  from c_in Cons.prems(1) have len: "Suc (length temp) = length pruned"
    unfolding temp_def by (intro length_filter_key) (simp_all add: dict_wf_def dict_contains_def dict_keys_def)
  have wf_temp: "dict_wf temp"
    using Cons.prems(1) by (simp add: temp_def dict_wf_filter)
  have keys_temp: "set cs \<subseteq> set (dict_keys temp)"
    using Cons.prems(3,4) by (auto simp: temp_def dict_keys_filter)
  have sub_temp: "set temp \<subseteq> set pruned"
    by (auto simp: temp_def)
  have cs_dist: "distinct cs"
    using Cons.prems(4) by simp
  show ?case
  proof (cases "cur \<le> \<phi> temp data")
    case accept: True
    show ?thesis
    proof (cases "length temp = 1")
      case True
      then have "temp \<noteq> []" by auto
      with del accept True sub_temp show ?thesis
        by (auto simp: dict_keys_def)
    next
      case False
      with len Cons.prems(2) have "2 \<le> length temp" by linarith
      from Cons.IH [OF wf_temp this keys_temp cs_dist, of "\<phi> temp data"]
      obtain p where p: "pruning_loop cs temp (\<phi> temp data) \<phi> data = Inr p" "p \<noteq> []"
        "set p \<subseteq> set temp" "\<phi> temp data \<le> \<phi> p data"
        by auto
      from del accept False p(1)
      have "pruning_loop (c # cs) pruned cur \<phi> data = Inr p"
        by (simp add: dict_keys_def)
      with p sub_temp accept show ?thesis by auto
    qed
  next
    case reject: False
    from Cons.prems(3) have keys: "set cs \<subseteq> set (dict_keys pruned)" by simp
    from Cons.IH [OF Cons.prems(1,2) keys cs_dist, of cur]
    obtain p where p: "pruning_loop cs pruned cur \<phi> data = Inr p" "p \<noteq> []"
      "set p \<subseteq> set pruned" "cur = \<phi> pruned data \<longrightarrow> cur \<le> \<phi> p data"
      by auto
    from Cons.prems(2) have "length pruned \<noteq> 1" by simp
    with del reject p(1)
    have "pruning_loop (c # cs) pruned cur \<phi> data = Inr p"
      by (simp add: dict_keys_def)
    with p show ?thesis by auto
  qed
qed

lemma apply_dominance_pruning_result:
  assumes "dict_wf d"
  shows "\<exists>p. apply_dominance_pruning (d, q) \<phi> data = Inr p \<and> (d \<noteq> [] \<longrightarrow> p \<noteq> [])
           \<and> set p \<subseteq> set d \<and> (q = \<phi> d data \<longrightarrow> q \<le> \<phi> p data)"
proof -
  consider "d = []" | "length d = 1" | "2 \<le> length d"
    by (cases d) (auto simp: Suc_le_eq)
  then show ?thesis
  proof cases
    case 1
    then show ?thesis
      by (simp add: apply_dominance_pruning_def dict_keys_def)
  next
    case 2
    then show ?thesis
      by (simp add: apply_dominance_pruning_def dict_keys_def)
  next
    case 3
    from assms have "distinct (dict_keys d)"
      by (simp add: dict_wf_def dict_keys_def)
    from pruning_loop_result [OF assms 3 subset_refl this, of q \<phi> data]
    obtain p where "pruning_loop (dict_keys d) d q \<phi> data = Inr p" "p \<noteq> []"
      "set p \<subseteq> set d" "q = \<phi> d data \<longrightarrow> q \<le> \<phi> p data"
      by auto
    with 3 show ?thesis
      by (auto simp: apply_dominance_pruning_def dict_keys_def)
  qed
qed

text \<open>
  Claim C7: for every pair of a description and a stored quality that equals the quality
  function's value on the description, apply\_dominance\_pruning returns a description
  whose conditions are among the original's and whose recomputed quality is at least the
  original's.
\<close>

theorem dominance_pruning_quality:
  assumes "dict_wf d" and "q = \<phi> d data"
  shows "\<exists>p. apply_dominance_pruning (d, q) \<phi> data = Inr p \<and> set p \<subseteq> set d \<and> q \<le> \<phi> p data"
  using apply_dominance_pruning_result [OF assms(1), of q \<phi> data] assms(2) by auto

lemma example_pruning:
  "apply_dominance_pruning ([(''A'', True), (''B'', True)], 4) coverage_quality example_data
   = Inr [(''B'', True)]"
  by code_simp

lemma example_quality_AB: "coverage_quality [(''A'', True), (''B'', True)] example_data = 4"
  by code_simp

lemma example_quality_B: "coverage_quality [(''B'', True)] example_data = 7"
  by code_simp

theorem dominance_pruning_quality_witness:
  "apply_dominance_pruning ([(''A'', True), (''B'', True)], 4) coverage_quality example_data
     = Inr [(''B'', True)]
   \<and> set [(''B'', True)] \<subseteq> set [(''A'', True), (''B'', True)]
   \<and> 4 \<le> coverage_quality [(''B'', True)] example_data"
proof -
  have "dict_wf [(''A'', True), (''B'', True)]"
    and "4 = coverage_quality [(''A'', True), (''B'', True)] example_data"
    by (simp_all add: dict_wf_def example_quality_AB)
  from dominance_pruning_quality [where d = "[(''A'', True), (''B'', True)]" and q = 4
      and \<phi> = coverage_quality and data = example_data, OF this]
  show ?thesis
    by (simp add: example_pruning)
qed

text \<open>
  Claim C8, as stated: for every input, apply\_dominance\_pruning never returns a
  description with zero conditions. It fails on the input whose description is the empty
  dict: its length is not 1, the loop over its keys does nothing, and it is returned.
\<close>

theorem dominance_pruning_empty_counterexample:
  "apply_dominance_pruning ([], 0) zero_quality example_data = Inr []"
  by (simp add: apply_dominance_pruning_def dict_keys_def)

text \<open>
  Claim C8, amended: for every input whose description holds at least one condition,
  apply\_dominance\_pruning returns a description with at least one condition; a
  one-condition input is returned unchanged, and the loop returns as soon as an accepted
  removal leaves a single condition.
\<close>

theorem dominance_pruning_floor:
  assumes "dict_wf d" and "d \<noteq> []"
  shows "(\<exists>p. apply_dominance_pruning (d, q) \<phi> data = Inr p \<and> p \<noteq> [])
       \<and> (length d = 1 \<longrightarrow> apply_dominance_pruning (d, q) \<phi> data = Inr d)
       \<and> (\<forall>c cs pruned cur temp.
            dict_del pruned c = Inr temp \<and> cur \<le> \<phi> temp data \<and> length temp = 1
            \<longrightarrow> pruning_loop (c # cs) pruned cur \<phi> data = Inr temp)"
proof -
  have "\<exists>p. apply_dominance_pruning (d, q) \<phi> data = Inr p \<and> p \<noteq> []"
    using apply_dominance_pruning_result [OF assms(1), of q \<phi> data] assms(2) by auto
  moreover have "length d = 1 \<longrightarrow> apply_dominance_pruning (d, q) \<phi> data = Inr d"
    by (simp add: apply_dominance_pruning_def dict_keys_def)
  ultimately show ?thesis
    by (simp add: dict_keys_def)
qed

theorem dominance_pruning_floor_witness:
  "apply_dominance_pruning ([(''A'', True)], 7) coverage_quality example_data = Inr [(''A'', True)]
   \<and> (\<exists>p. apply_dominance_pruning ([(''A'', True), (''B'', True)], 4) coverage_quality example_data = Inr p
          \<and> p \<noteq> [])"
proof -
  have a: "dict_wf [(''A'', True)]" "[(''A'', True)] \<noteq> []"
    and b: "dict_wf [(''A'', True), (''B'', True)]" "[(''A'', True), (''B'', True)] \<noteq> []"
    by (simp_all add: dict_wf_def)
  from dominance_pruning_floor [OF a, of 7 coverage_quality example_data]
    dominance_pruning_floor [OF b, of 4 coverage_quality example_data]
  show ?thesis by simp
qed

subsection \<open>The top-k list\<close>

lemma fold_min_quality:
  "fold (\<lambda>y m. if snd y < snd m then y else m) xs (x::entry) \<in> set (x # xs)
   \<and> (\<forall>e\<in>set (x # xs). snd (fold (\<lambda>y m. if snd y < snd m then y else m) xs x) \<le> snd e)"
proof (induction xs arbitrary: x)
  case Nil
  then show ?case by simp
next
  case (Cons y ys)
  show ?case
    using Cons.IH [of y] Cons.IH [of x] by (cases "snd y < snd x") auto
qed

lemma py_min_by_quality_ok:
  assumes "R \<noteq> []"
  shows "\<exists>m. py_min_by_quality R = Inr m \<and> m \<in> set R \<and> (\<forall>r\<in>set R. snd m \<le> snd r)"
proof -
  from assms obtain x xs where R: "R = x # xs" by (cases R) auto
  show ?thesis
    unfolding R using fold_min_quality [of xs x] by simp
qed

lemma py_min_by_quality_empty: "py_min_by_quality [] = Inl ValueError"
  by simp

lemma entry_eq_refl: "entry_eq x x"
  by (simp add: entry_eq_def dict_eq_def)

lemma list_remove_ok:
  assumes "m \<in> set R"
  shows "\<exists>y R0. list_remove R m = Inr R0 \<and> y \<in> set R \<and> entry_eq y m \<and> mset R = add_mset y (mset R0)"
  using assms
proof (induction R)
  case Nil
  then show ?case by simp
next
  case (Cons a R)
  show ?case
  proof (cases "entry_eq a m")
    case True
    then show ?thesis
      by (intro exI [of _ a] exI [of _ R]) simp
  next
    case False
    then have "a \<noteq> m"
      using entry_eq_refl [of m] by auto
    with Cons.prems have "m \<in> set R"
      by simp
    from Cons.IH [OF this] obtain y R0 where
      "list_remove R m = Inr R0" "y \<in> set R" "entry_eq y m" "mset R = add_mset y (mset R0)"
      by blast
    with False show ?thesis
      by (intro exI [of _ y] exI [of _ "a # R0"]) simp
  qed
qed

lemma update_top_k_append:
  "int (length R) < j \<Longrightarrow> update_top_k R j c q = Inr (R @ [(c, q)])"
  by (simp add: update_top_k_def)

lemma update_top_k_full:
  assumes "\<not> int (length R) < j" and "R \<noteq> []"
  shows "\<exists>m. py_min_by_quality R = Inr m \<and> m \<in> set R \<and> (\<forall>r\<in>set R. snd m \<le> snd r)
           \<and> (if snd m < q
               then \<exists>y R0. y \<in> set R \<and> snd y = snd m \<and> mset R = add_mset y (mset R0)
                      \<and> update_top_k R j c q = Inr (R0 @ [(c, q)])
                      \<and> evicted_by R (R0 @ [(c, q)]) = {#y#}
               else update_top_k R j c q = Inr R)"
proof -
  from py_min_by_quality_ok [OF assms(2)] obtain m where
    m: "py_min_by_quality R = Inr m" "m \<in> set R" "\<forall>r\<in>set R. snd m \<le> snd r"
    by blast
  show ?thesis
  proof (cases "snd m < q")
    case True
    from list_remove_ok [OF m(2)] obtain y R0 where
      y: "list_remove R m = Inr R0" "y \<in> set R" "entry_eq y m" "mset R = add_mset y (mset R0)"
      by blast
    from y(3) have sy: "snd y = snd m"
      by (simp add: entry_eq_def)
    with True have "y \<noteq> (c, q)" by auto
    with y(4) have "evicted_by R (R0 @ [(c, q)]) = {#y#}"
      by (simp add: evicted_by_def)
    moreover from assms(1) m(1) True y(1) have "update_top_k R j c q = Inr (R0 @ [(c, q)])"
      by (simp add: update_top_k_def)
    ultimately have "\<exists>y R0. y \<in> set R \<and> snd y = snd m \<and> mset R = add_mset y (mset R0)
                      \<and> update_top_k R j c q = Inr (R0 @ [(c, q)])
                      \<and> evicted_by R (R0 @ [(c, q)]) = {#y#}"
      using y(2,4) sy by blast
    with m True show ?thesis
      by (intro exI [of _ m]) simp
  next
    case False
    with assms(1) m(1) have "update_top_k R j c q = Inr R"
      by (simp add: update_top_k_def)
    with m False show ?thesis
      by (intro exI [of _ m]) simp
  qed
qed

lemma update_top_k_step:
  assumes "1 \<le> j" and "int (length R) \<le> j"
    and "E \<noteq> {#} \<longrightarrow> int (length R) = j"
    and "\<forall>e\<in>#E. \<forall>r\<in>set R. snd e \<le> snd r"
  shows "\<exists>R'. update_top_k R j c q = Inr R' \<and> int (length R') \<le> j
           \<and> (E + evicted_by R R' \<noteq> {#} \<longrightarrow> int (length R') = j)
           \<and> (\<forall>e\<in>#E + evicted_by R R'. \<forall>r\<in>set R'. snd e \<le> snd r)
           \<and> set R' \<subseteq> insert (c, q) (set R)"
proof (cases "int (length R) < j")
  case True
  with assms(3) have "E = {#}" by auto
  with True show ?thesis
    by (auto simp: update_top_k_append evicted_by_def)
next
  case False
  with assms(1,2) have full: "int (length R) = j" and ne: "R \<noteq> []" by auto
  from update_top_k_full [OF False ne, of q c] obtain m where
    m: "m \<in> set R" "\<forall>r\<in>set R. snd m \<le> snd r"
    and br: "if snd m < q
             then \<exists>y R0. y \<in> set R \<and> snd y = snd m \<and> mset R = add_mset y (mset R0)
                    \<and> update_top_k R j c q = Inr (R0 @ [(c, q)])
                    \<and> evicted_by R (R0 @ [(c, q)]) = {#y#}
             else update_top_k R j c q = Inr R"
    by blast
  show ?thesis
  proof (cases "snd m < q")
    case True
    with br obtain y R0 where
      y: "y \<in> set R" "snd y = snd m" "mset R = add_mset y (mset R0)"
        "update_top_k R j c q = Inr (R0 @ [(c, q)])" "evicted_by R (R0 @ [(c, q)]) = {#y#}"
      by auto
    from y(3) have len: "length R = Suc (length R0)"
      by (metis size_add_mset size_mset)
    from y(3) have sub: "set R0 \<subseteq> set R"
      by (metis set_mset_add_mset_insert set_mset_mset subset_insertI)
    have low: "snd m \<le> snd r" if "r \<in> set (R0 @ [(c, q)])" for r
      using that sub m(2) True by auto
    have "snd e \<le> snd r" if "e \<in># E + {#y#}" "r \<in> set (R0 @ [(c, q)])" for e r
    proof -
      from that(1) have "snd e \<le> snd m"
        using assms(4) m(1) y(2) by auto
      with low [OF that(2)] show ?thesis by simp
    qed
    with y(4,5) len full sub show ?thesis
      by auto
  next
    case False
    with br have "update_top_k R j c q = Inr R" by simp
    with assms full show ?thesis
      by (auto simp: evicted_by_def)
  qed
qed

lemma top_k_run_invariant:
  assumes "1 \<le> j" and "int (length R) \<le> j"
    and "E \<noteq> {#} \<longrightarrow> int (length R) = j"
    and "\<forall>e\<in>#E. \<forall>r\<in>set R. snd e \<le> snd r"
  shows "\<exists>R' E'. top_k_run j R E ins = Inr (R', E') \<and> int (length R') \<le> j
           \<and> (\<forall>e\<in>#E'. \<forall>r\<in>set R'. snd e \<le> snd r)"
  using assms
proof (induction ins arbitrary: R E)
  case Nil
  then show ?case by simp
next
  case (Cons x ins)
  from update_top_k_step [OF Cons.prems, of "fst x" "snd x"] obtain R1 where
    R1: "update_top_k R j (fst x) (snd x) = Inr R1" "int (length R1) \<le> j"
      "E + evicted_by R R1 \<noteq> {#} \<longrightarrow> int (length R1) = j"
      "\<forall>e\<in>#E + evicted_by R R1. \<forall>r\<in>set R1. snd e \<le> snd r"
    by blast
  from Cons.IH [OF Cons.prems(1) R1(2,3,4)] R1(1) show ?case
    by simp
qed

text \<open>
  Claim C5: for every \<open>j \<ge> 1\<close> and every sequence of update\_top\_k insertions starting
  from the empty list, the run returns a list \<open>R\<close> and (a) \<open>R\<close> holds at most \<open>j\<close>
  entries (after each insertion: the sequence is arbitrary); (b) when \<open>R\<close> holds \<open>j\<close>
  entries, a further entry is accepted only if its quality is strictly above the least
  retained quality, and then exactly one entry of that least quality is evicted, and
  otherwise \<open>R\<close> is unchanged; (c) every entry evicted during the run has a quality
  that is at most the quality of every retained entry.
\<close>

theorem top_k_bound:
  assumes "1 \<le> j"
  shows "\<exists>R E. top_k_run j [] {#} ins = Inr (R, E)
           \<and> int (length R) \<le> j
           \<and> (\<forall>e\<in>#E. \<forall>r\<in>set R. snd e \<le> snd r)
           \<and> (int (length R) = j \<longrightarrow>
                (\<forall>c q. \<exists>m. py_min_by_quality R = Inr m \<and> m \<in> set R \<and> (\<forall>r\<in>set R. snd m \<le> snd r)
                   \<and> (if snd m < q
                       then \<exists>y R0. y \<in> set R \<and> snd y = snd m \<and> mset R = add_mset y (mset R0)
                              \<and> update_top_k R j c q = Inr (R0 @ [(c, q)])
                              \<and> evicted_by R (R0 @ [(c, q)]) = {#y#}
                       else update_top_k R j c q = Inr R)))"
proof -
  from top_k_run_invariant [OF assms, of "[]" "{#}" ins] obtain R E where
    run: "top_k_run j [] {#} ins = Inr (R, E)" "int (length R) \<le> j"
      "\<forall>e\<in>#E. \<forall>r\<in>set R. snd e \<le> snd r"
    using assms by auto
  have "\<exists>m. py_min_by_quality R = Inr m \<and> m \<in> set R \<and> (\<forall>r\<in>set R. snd m \<le> snd r)
           \<and> (if snd m < q
               then \<exists>y R0. y \<in> set R \<and> snd y = snd m \<and> mset R = add_mset y (mset R0)
                      \<and> update_top_k R j c q = Inr (R0 @ [(c, q)])
                      \<and> evicted_by R (R0 @ [(c, q)]) = {#y#}
               else update_top_k R j c q = Inr R)"
    if "int (length R) = j" for c q
  proof -
    from that assms have "\<not> int (length R) < j" "R \<noteq> []" by auto
    then show ?thesis by (rule update_top_k_full)
  qed
  with run show ?thesis by blast
qed


lemma example_run:
  "top_k_run 2 [] {#} [([(''A'', True)], 7), ([(''A'', False)], 3), ([(''B'', True)], 7)]
   = Inr ([([(''A'', True)], 7), ([(''B'', True)], 7)], {#([(''A'', False)], 3)#})"
  by (simp add: update_top_k_def evicted_by_def entry_eq_def dict_eq_def)

theorem top_k_bound_witness:
  "top_k_run 2 [] {#} [([(''A'', True)], 7), ([(''A'', False)], 3), ([(''B'', True)], 7)]
     = Inr ([([(''A'', True)], 7), ([(''B'', True)], 7)], {#([(''A'', False)], 3)#})
   \<and> int (length [([(''A'', True)], 7::int), ([(''B'', True)], 7)]) \<le> 2"
proof -
  have "(1::int) \<le> 2" by simp
  from top_k_bound [OF this, of "[([(''A'', True)], 7), ([(''A'', False)], 3), ([(''B'', True)], 7)]"]
  show ?thesis
    by (simp add: example_run del: top_k_run.simps)
qed

subsection \<open>Refinements and a top-k width that is not positive\<close>

lemma refine_values_ok:
  assumes "\<not> dict_contains b col" and "col \<in> set (columns S)"
    and "set (dict_keys b) \<subseteq> set (columns S)" and "plain_columns S"
  shows "refine_values b mincov S col vs acc
         = Inr (acc @ filter (\<lambda>d. mincov \<le> int (length (matches S d))) (map (\<lambda>v. b @ [(col, v)]) vs))"
proof (induction vs arbitrary: acc)
  case Nil
  then show ?case by simp
next
  case (Cons v vs)
  have keys: "set (dict_keys (b @ [(col, v)])) \<subseteq> set (columns S)"
    using assms(2,3) by (auto simp: dict_keys_def)
  have "coverage S (b @ [(col, v)]) = Inr (length (matches S (b @ [(col, v)])))"
    using plain_columns_keys [OF assms(4) keys] keys by (intro coverage_ok) simp_all
  with assms(1) Cons show ?case
    by (simp add: dict_merge_single)
qed

lemma refine_columns_ok:
  assumes "set cs \<subseteq> set (columns S)" and "set (dict_keys b) \<subseteq> set (columns S)"
    and "plain_columns S"
  shows "refine_columns b mincov S cs acc
         = Inr (acc @ concat (map (\<lambda>col. if dict_contains b col then []
                  else filter (\<lambda>d. mincov \<le> int (length (matches S d)))
                         (map (\<lambda>v. b @ [(col, v)]) [True, False])) cs))"
  using assms(1)
proof (induction cs arbitrary: acc)
  case Nil
  then show ?case by simp
next
  case (Cons col cs)
  show ?case
  proof (cases "dict_contains b col")
    case True
    with Cons show ?thesis by simp
  next
    case False
    from Cons.prems have "col \<in> set (columns S)" by simp
    from refine_values_ok [OF False this assms(2,3)] Cons False show ?thesis
      by (simp del: refine_values.simps)
  qed
qed

lemma generate_refinements_ok:
  assumes "set (dict_keys b) \<subseteq> set (columns S)" and "plain_columns S"
  shows "generate_refinements b mincov S
         = Inr (concat (map (\<lambda>col. if dict_contains b col then []
                  else filter (\<lambda>d. mincov \<le> int (length (matches S d)))
                         (map (\<lambda>v. b @ [(col, v)]) [True, False])) (columns S)))"
  unfolding generate_refinements_def
  using refine_columns_ok [OF subset_refl assms, of mincov "[]"] by simp

lemma generate_refinements_candidates:
  assumes "beam_member S b" and "plain_columns S"
  shows "\<exists>rs. generate_refinements b mincov S = Inr rs \<and> (\<forall>d\<in>set rs. candidate S mincov d)"
proof -
  from assms have keys: "set (dict_keys b) \<subseteq> set (columns S)" and wf: "dict_wf b"
    by (simp_all add: beam_member_def)
  have "candidate S mincov (b @ [(col, v)])"
    if "col \<in> set (columns S)" "\<not> dict_contains b col" "mincov \<le> int (length (matches S (b @ [(col, v)])))"
    for col v
    using that keys wf
    by (auto simp: candidate_def beam_member_def dict_wf_def dict_contains_def dict_keys_def)
  then show ?thesis
    unfolding generate_refinements_ok [OF keys assms(2)] by (auto split: if_splits)
qed

lemma generate_refinements_nonempty:
  assumes "plain_columns S" and "col \<in> set (columns S)"
    and "mincov \<le> int (length (matches S [(col, v)]))"
  shows "\<exists>c cs. generate_refinements [] mincov S = Inr (c # cs)"
proof -
  define f where "f = (\<lambda>col. if dict_contains [] col then []
                  else filter (\<lambda>d. mincov \<le> int (length (matches S d)))
                         (map (\<lambda>v. [] @ [(col, v)]) [True, False]))"
  define rs where "rs = concat (map f (columns S))"
  have gen: "generate_refinements [] mincov S = Inr rs"
    unfolding rs_def f_def
    by (rule generate_refinements_ok) (simp_all add: dict_keys_def assms(1))
  have "[(col, v)] \<in> set (f col)"
    using assms(3) by (cases v) (simp_all add: f_def dict_contains_def dict_keys_def)
  with assms(2) have "[(col, v)] \<in> set rs"
    unfolding rs_def set_concat set_map by blast
  then obtain c cs where "rs = c # cs"
    by (cases rs) auto
  with gen show ?thesis by blast
qed

lemma update_top_k_empty_error: "j \<le> 0 \<Longrightarrow> update_top_k [] j c q = Inl ValueError"
  by (simp add: update_top_k_def)

lemma dssd_top_k_error:
  assumes "j \<le> 0" and "1 \<le> maxdepth" and "generate_refinements [] mincov S = Inr (c # cs)"
  shows "dssd S \<phi> j k mincov maxdepth P = Inl ValueError"
proof -
  have "dssd_loop S \<phi> j mincov maxdepth P 1 [] [[]] = Inl ValueError"
    using assms by (subst dssd_loop.simps) (simp add: update_top_k_empty_error)
  then show ?thesis
    by (simp add: dssd_def dssd_retained_def)
qed

lemma example_refinements:
  "generate_refinements [] 3 example_data
   = Inr [[(''A'', True)], [(''A'', False)], [(''B'', True)], [(''B'', False)]]"
  by code_simp

text \<open>
  Claim C10: for every call of update\_top\_k with an empty list and \<open>j \<le> 0\<close> the
  function raises ValueError (the minimum of an empty sequence) instead of returning; so
  dssd with \<open>j \<le> 0\<close> raises that error in the first pass of its loop whenever the search
  generates a refinement that meets \<open>mincov\<close>, that is, whenever the loop is entered
  (\<open>maxdepth \<ge> 1\<close>) and generate\_refinements on the empty description returns a list
  that is not empty. On a dataset with plain column names that is the case as soon as one
  description of a single condition matches \<open>mincov\<close> rows.
\<close>

theorem dssd_nonpositive_j:
  assumes "j \<le> 0"
  shows "update_top_k [] j c q = Inl ValueError
       \<and> (1 \<le> maxdepth \<and> generate_refinements [] mincov S = Inr (r # rs)
            \<longrightarrow> dssd S \<phi> j k mincov maxdepth P = Inl ValueError)
       \<and> (1 \<le> maxdepth \<and> plain_columns S \<and> col \<in> set (columns S)
              \<and> mincov \<le> int (length (matches S [(col, v)]))
            \<longrightarrow> dssd S \<phi> j k mincov maxdepth P = Inl ValueError)"
proof -
  have a: "dssd S \<phi> j k mincov maxdepth P = Inl ValueError"
    if "1 \<le> maxdepth" "generate_refinements [] mincov S = Inr (r # rs)"
    using assms that by (rule dssd_top_k_error)
  have b: "dssd S \<phi> j k mincov maxdepth P = Inl ValueError"
    if "1 \<le> maxdepth" "plain_columns S" "col \<in> set (columns S)"
      "mincov \<le> int (length (matches S [(col, v)]))"
  proof -
    from generate_refinements_nonempty [OF that(2,3,4)] obtain c' cs where
      "generate_refinements [] mincov S = Inr (c' # cs)" by blast
    with assms that(1) show ?thesis by (rule dssd_top_k_error)
  qed
  from assms a b show ?thesis
    by (simp add: update_top_k_empty_error)
qed

theorem dssd_nonpositive_j_witness:
  "update_top_k [] 0 [(''A'', True)] 7 = Inl ValueError
   \<and> dssd example_data coverage_quality 0 2 3 2 (beam_params 2) = Inl ValueError"
proof -
  have j: "(0::int) \<le> 0" by simp
  have h: "(1::int) \<le> 2 \<and> generate_refinements [] 3 example_data
             = Inr ([(''A'', True)] # [[(''A'', False)], [(''B'', True)], [(''B'', False)]])"
    by (simp add: example_refinements)
  from dssd_nonpositive_j [where j = 0 and c = "[(''A'', True)]" and q = 7 and maxdepth = 2
      and S = example_data and mincov = 3 and r = "[(''A'', True)]"
      and rs = "[[(''A'', False)], [(''B'', True)], [(''B'', False)]]"
      and \<phi> = coverage_quality and k = 2 and P = "beam_params 2", OF j] h
  show ?thesis
    by blast
qed

subsection \<open>The search loop and the final output\<close>

lemma candidate_beam_member: "candidate S mincov d \<Longrightarrow> beam_member S d"
  by (simp add: candidate_def)

lemma extend_cands_candidates:
  assumes "plain_columns S"
    and "\<forall>b\<in>set Beam. beam_member S b" and "\<forall>d\<in>set Cands. candidate S mincov d"
  shows "\<exists>Cs. extend_cands Beam mincov S Cands = Inr Cs \<and> (\<forall>d\<in>set Cs. candidate S mincov d)"
  using assms(2,3)
proof (induction Beam arbitrary: Cands)
  case Nil
  then show ?case by simp
next
  case (Cons b Beam)
  from Cons.prems(1) have "beam_member S b" by simp
  from generate_refinements_candidates [OF this assms(1), of mincov] obtain rs where
    rs: "generate_refinements b mincov S = Inr rs" "\<forall>d\<in>set rs. candidate S mincov d"
    by blast
  from rs(2) Cons.prems(2) have "\<forall>d\<in>set (Cands @ rs). candidate S mincov d"
    by auto
  moreover from Cons.prems(1) have "\<forall>b\<in>set Beam. beam_member S b" by simp
  ultimately obtain Cs where
    "extend_cands Beam mincov S (Cands @ rs) = Inr Cs" "\<forall>d\<in>set Cs. candidate S mincov d"
    using Cons.IH by blast
  with rs(1) show ?case by simp
qed

lemma list_remove_set: "list_remove R m = Inr R0 \<Longrightarrow> set R0 \<subseteq> set R"
proof (induction R arbitrary: R0)
  case Nil
  then show ?case by simp
next
  case (Cons a R)
  show ?case
  proof (cases "entry_eq a m")
    case True
    with Cons.prems show ?thesis by auto
  next
    case False
    with Cons.prems obtain zs where zs: "list_remove R m = Inr zs" "R0 = a # zs"
      by (cases "list_remove R m") auto
    from Cons.IH [OF zs(1)] zs(2) show ?thesis by auto
  qed
qed

lemma update_top_k_set:
  assumes "update_top_k R j c q = Inr R'"
  shows "set R' \<subseteq> insert (c, q) (set R)"
proof (cases "int (length R) < j")
  case True
  with assms show ?thesis by (auto simp: update_top_k_def)
next
  case False
  with assms obtain m where m: "py_min_by_quality R = Inr m"
    by (cases "py_min_by_quality R") (auto simp: update_top_k_def)
  show ?thesis
  proof (cases "snd m < q")
    case True
    with assms False m obtain R0 where R0: "list_remove R m = Inr R0" "R' = R0 @ [(c, q)]"
      by (cases "list_remove R m") (auto simp: update_top_k_def)
    from list_remove_set [OF R0(1)] R0(2) show ?thesis by auto
  next
    case notless: False
    with assms False m show ?thesis by (auto simp: update_top_k_def)
  qed
qed

lemma update_top_k_returns:
  assumes "1 \<le> j"
  shows "\<exists>R'. update_top_k R j c q = Inr R'"
proof (cases "int (length R) < j")
  case True
  then show ?thesis by (simp add: update_top_k_append)
next
  case False
  with assms have "R \<noteq> []" by auto
  from update_top_k_full [OF False this, of q c] show ?thesis
    by (metis (no_types, lifting))
qed

lemma update_all_candidates:
  assumes "\<forall>d\<in>set Cands. candidate S mincov d" and "\<forall>e\<in>set R. candidate S mincov (fst e)"
  shows "(\<forall>R'. update_all R j \<phi> S Cands = Inr R' \<longrightarrow> (\<forall>e\<in>set R'. candidate S mincov (fst e)))
       \<and> (1 \<le> j \<longrightarrow> (\<exists>R'. update_all R j \<phi> S Cands = Inr R'))"
  using assms
proof (induction Cands arbitrary: R)
  case Nil
  then show ?case by simp
next
  case (Cons c Cands)
  show ?case
  proof (cases "update_top_k R j c (\<phi> c S)")
    case (Inl e)
    with update_top_k_returns [of j R c "\<phi> c S"] show ?thesis by auto
  next
    case (Inr R1)
    from update_top_k_set [OF Inr] Cons.prems have "\<forall>e\<in>set R1. candidate S mincov (fst e)"
      by auto
    moreover from Cons.prems(1) have "\<forall>d\<in>set Cands. candidate S mincov d" by simp
    ultimately show ?thesis
      using Cons.IH [of R1] Inr by simp
  qed
qed

lemma dssd_loop_candidates:
  "plain_columns S \<Longrightarrow> \<forall>e\<in>set R. candidate S mincov (fst e) \<Longrightarrow>
   \<forall>b\<in>set Beam. beam_member S b \<Longrightarrow>
   (\<forall>R'. dssd_loop S \<phi> j mincov maxdepth P depth R Beam = Inr R'
          \<longrightarrow> (\<forall>e\<in>set R'. candidate S mincov (fst e)))
   \<and> (1 \<le> j \<longrightarrow> (\<exists>R'. dssd_loop S \<phi> j mincov maxdepth P depth R Beam = Inr R'))"
proof (induction S \<phi> j mincov maxdepth P depth R Beam rule: dssd_loop.induct)
  case (1 S \<phi> j mincov maxdepth P depth R Beam)
  show ?case
  proof (cases "depth \<le> maxdepth")
    case False
    with "1.prems" show ?thesis
      by (subst (1 2) dssd_loop.simps) simp
  next
    case True
    from extend_cands_candidates [OF "1.prems"(1), of Beam "[]" mincov] "1.prems"(3)
    obtain Cands where
      Cands: "extend_cands Beam mincov S [] = Inr Cands" "\<forall>d\<in>set Cands. candidate S mincov d"
      by auto
    have beam: "\<forall>b\<in>set (subgroup_selection Cands \<phi> P S). beam_member S b"
      using subgroup_selection_set [of Cands \<phi> P S] Cands(2) candidate_beam_member by blast
    note upd = update_all_candidates [OF Cands(2) "1.prems"(2), of j \<phi>]
    show ?thesis
    proof (cases "update_all R j \<phi> S Cands")
      case (Inl e)
      with upd have "\<not> 1 \<le> j" by auto
      with True Cands(1) Inl show ?thesis
        by (subst (1 2) dssd_loop.simps) simp
    next
      case (Inr R1)
      with upd have "\<forall>e\<in>set R1. candidate S mincov (fst e)" by simp
      from "1.IH" [OF True Cands(1) Inr "1.prems"(1) this beam]
      have "(\<forall>R'. dssd_loop S \<phi> j mincov maxdepth P (depth + 1) R1 (subgroup_selection Cands \<phi> P S) = Inr R'
               \<longrightarrow> (\<forall>e\<in>set R'. candidate S mincov (fst e)))
          \<and> (1 \<le> j \<longrightarrow> (\<exists>R'. dssd_loop S \<phi> j mincov maxdepth P (depth + 1) R1
                               (subgroup_selection Cands \<phi> P S) = Inr R'))" .
      with True Cands(1) Inr show ?thesis
        by (subst (1 2) dssd_loop.simps) simp
    qed
  qed
qed

lemma matches_mono:
  assumes "set p \<subseteq> set d"
  shows "length (matches S d) \<le> length (matches S p)"
proof -
  have "satisfies r p" if "satisfies r d" for r
    using that assms by (auto simp: satisfies_iff)
  then have "filter (\<lambda>r. satisfies r d) (rows S)
             = filter (\<lambda>r. satisfies r d) (filter (\<lambda>r. satisfies r p) (rows S))"
    by (auto intro: filter_cong)
  then show ?thesis
    unfolding matches_def by (metis length_filter_le)
qed

lemma pruned_candidate_coverage:
  assumes "plain_columns S" and "candidate S mincov d" and "set p \<subseteq> set d" and "p \<noteq> []"
  shows "\<exists>n. coverage S p = Inr n \<and> mincov \<le> int n"
proof -
  from assms(2,3) have keys: "set (dict_keys p) \<subseteq> set (columns S)"
    by (auto simp: candidate_def beam_member_def dict_keys_def)
  from assms(4) plain_columns_keys [OF assms(1) keys] keys
  have "coverage S p = Inr (length (matches S p))"
    by (rule coverage_ok)
  moreover from assms(2) matches_mono [OF assms(3), of S]
  have "mincov \<le> int (length (matches S p))"
    by (simp add: candidate_def)
  ultimately show ?thesis by blast
qed

lemma prune_all_coverage:
  assumes "plain_columns S" and "\<forall>e\<in>set R. candidate S mincov (fst e)"
  shows "\<exists>ps. prune_all R \<phi> S = Inr ps
           \<and> (\<forall>p\<in>set ps. \<exists>n. coverage S p = Inr n \<and> mincov \<le> int n)"
  using assms(2)
proof (induction R)
  case Nil
  then show ?case by simp
next
  case (Cons r R)
  obtain d q where r: "r = (d, q)" by (cases r)
  from Cons.prems r have cand: "candidate S mincov d" by simp
  then have "dict_wf d" and "d \<noteq> []"
    by (simp_all add: candidate_def beam_member_def)
  from apply_dominance_pruning_result [OF this(1), of q \<phi> S] this(2) obtain p where
    p: "apply_dominance_pruning (d, q) \<phi> S = Inr p" "p \<noteq> []" "set p \<subseteq> set d"
    by auto
  from pruned_candidate_coverage [OF assms(1) cand p(3,2)]
  have cov: "\<exists>n. coverage S p = Inr n \<and> mincov \<le> int n" .
  from Cons.prems have "\<forall>e\<in>set R. candidate S mincov (fst e)" by simp
  from Cons.IH [OF this] obtain ps where
    ps: "prune_all R \<phi> S = Inr ps" "\<forall>p\<in>set ps. \<exists>n. coverage S p = Inr n \<and> mincov \<le> int n"
    by blast
  from p(1) ps(1) r have "prune_all (r # R) \<phi> S = Inr (p # ps)" by simp
  with cov ps(2) show ?case by auto
qed

lemma dedup_loop_set:
  "set (dedup_loop xs seen acc) \<subseteq> set acc \<union> set xs"
proof (induction xs arbitrary: seen acc)
  case Nil
  then show ?case by simp
next
  case (Cons x xs)
  show ?case
  proof (cases "str_dict x \<in> seen")
    case True
    with Cons [of seen acc] show ?thesis by auto
  next
    case False
    with Cons [of "insert (str_dict x) seen" "acc @ [x]"] show ?thesis by auto
  qed
qed

lemma remove_duplicates_set: "set (remove_duplicates xs) \<subseteq> set xs"
  using dedup_loop_set [of xs "{}" "[]"] by (simp add: remove_duplicates_def)

lemma dssd_retained_coverage:
  assumes "plain_columns S"
  shows "(\<forall>R. dssd_retained S \<phi> j mincov maxdepth P = Inr R
            \<longrightarrow> (\<forall>d\<in>set R. \<exists>n. coverage S d = Inr n \<and> mincov \<le> int n))
       \<and> (1 \<le> j \<longrightarrow> (\<exists>R. dssd_retained S \<phi> j mincov maxdepth P = Inr R))"
proof -
  have "\<forall>b\<in>set [[]]. beam_member S b"
    by (simp add: beam_member_def dict_wf_def dict_keys_def)
  with dssd_loop_candidates [OF assms, of "[]" mincov "[[]]" \<phi> j maxdepth P 1]
  have loop: "\<forall>R'. dssd_loop S \<phi> j mincov maxdepth P 1 [] [[]] = Inr R'
                \<longrightarrow> (\<forall>e\<in>set R'. candidate S mincov (fst e))"
    and ret: "1 \<le> j \<longrightarrow> (\<exists>R'. dssd_loop S \<phi> j mincov maxdepth P 1 [] [[]] = Inr R')"
    by simp_all
  have step: "\<exists>R. dssd_retained S \<phi> j mincov maxdepth P = Inr R
                \<and> (\<forall>d\<in>set R. \<exists>n. coverage S d = Inr n \<and> mincov \<le> int n)"
    if R0: "dssd_loop S \<phi> j mincov maxdepth P 1 [] [[]] = Inr R0" for R0
  proof -
    from loop R0 have "\<forall>e\<in>set R0. candidate S mincov (fst e)" by blast
    from prune_all_coverage [OF assms this, of \<phi>] obtain ps where
      ps: "prune_all R0 \<phi> S = Inr ps" "\<forall>p\<in>set ps. \<exists>n. coverage S p = Inr n \<and> mincov \<le> int n"
      by blast
    from R0 ps(1) have "dssd_retained S \<phi> j mincov maxdepth P = Inr (remove_duplicates ps)"
      by (simp add: dssd_retained_def)
    with ps(2) remove_duplicates_set [of ps] show ?thesis by blast
  qed
  have part: "\<forall>d\<in>set R. \<exists>n. coverage S d = Inr n \<and> mincov \<le> int n"
    if "dssd_retained S \<phi> j mincov maxdepth P = Inr R" for R
  proof (cases "dssd_loop S \<phi> j mincov maxdepth P 1 [] [[]]")
    case (Inl e)
    with that show ?thesis by (simp add: dssd_retained_def)
  next
    case (Inr R0)
    from step [OF Inr] that show ?thesis by auto
  qed
  from part ret step show ?thesis by blast
qed

text \<open>
  Claim C1: for every dataset with plain column names, every quality function and all
  parameters with \<open>k\<close> not negative, a list that dssd returns holds at most \<open>k\<close>
  descriptions, and the coverage query on every returned description succeeds with a
  count of at least \<open>mincov\<close> rows; and dssd does return a list when \<open>j \<ge> 1\<close>.
\<close>

theorem dssd_output_bound:
  assumes "plain_columns S" and "0 \<le> k"
  shows "(\<forall>res. dssd S \<phi> j k mincov maxdepth P = Inr res
            \<longrightarrow> int (length res) \<le> k
                \<and> (\<forall>d\<in>set res. \<exists>n. coverage S d = Inr n \<and> mincov \<le> int n))
       \<and> (1 \<le> j \<longrightarrow> (\<exists>res. dssd S \<phi> j k mincov maxdepth P = Inr res))"
proof -
  note ret = dssd_retained_coverage [OF assms(1), of \<phi> j mincov maxdepth P]
  have part: "int (length res) \<le> k \<and> (\<forall>d\<in>set res. \<exists>n. coverage S d = Inr n \<and> mincov \<le> int n)"
    if res: "dssd S \<phi> j k mincov maxdepth P = Inr res" for res
  proof -
    from res obtain R where
      R: "dssd_retained S \<phi> j mincov maxdepth P = Inr R"
        "res = py_slice_to k (subgroup_selection R \<phi> P S)"
      by (cases "dssd_retained S \<phi> j mincov maxdepth P") (auto simp: dssd_def)
    from ret R(1) have cov: "\<forall>d\<in>set R. \<exists>n. coverage S d = Inr n \<and> mincov \<le> int n"
      by blast
    have "int (length res) \<le> k"
      using assms(2) by (simp add: R(2) py_slice_to_length)
    moreover have "set res \<subseteq> set R"
      using py_slice_to_set [of k "subgroup_selection R \<phi> P S"] subgroup_selection_set [of R \<phi> P S]
      by (auto simp: R(2))
    ultimately show ?thesis using cov by blast
  qed
  have tot: "\<exists>res. dssd S \<phi> j k mincov maxdepth P = Inr res" if "1 \<le> j"
  proof -
    from ret that obtain R where "dssd_retained S \<phi> j mincov maxdepth P = Inr R" by blast
    then show ?thesis by (simp add: dssd_def)
  qed
  from part tot show ?thesis by blast
qed

lemma example_dssd:
  "dssd example_data coverage_quality 4 2 3 2 (beam_params 2) = Inr [[(''A'', True)], [(''B'', True)]]"
  by code_simp

theorem dssd_output_bound_witness:
  "dssd example_data coverage_quality 4 2 3 2 (beam_params 2) = Inr [[(''A'', True)], [(''B'', True)]]
   \<and> int (length [[(''A'', True)], [(''B'', True)]]) \<le> 2
   \<and> (\<exists>n. coverage example_data [(''A'', True)] = Inr n \<and> 3 \<le> int n)
   \<and> (\<exists>n. coverage example_data [(''B'', True)] = Inr n \<and> 3 \<le> int n)"
proof -
  have "(0::int) \<le> 2" by simp
  from dssd_output_bound [where j = 4 and k = 2 and S = example_data and \<phi> = coverage_quality
      and mincov = 3 and maxdepth = 2 and P = "beam_params 2", OF example_plain_columns this]
  show ?thesis
    unfolding example_dssd by simp
qed

text \<open>
  Claim C2: the final selection uses width \<open>k\<close> and not \<^verbatim>\<open>beam_width\<close>, so that
  the output has exactly \<open>k\<close> entries whenever the deduplicated set holds at least \<open>k\<close>.
  The code passes the same parameter dict to the final subgroup\_selection, which cuts
  the ranked list at \<^verbatim>\<open>beam_width\<close> before the slice \<^verbatim>\<open>R[:k]\<close>: evaluated here with
  \<open>k = 2\<close> and \<^verbatim>\<open>beam_width = 1\<close>, the deduplicated set holds three descriptions and
  the output one.
\<close>

theorem dssd_final_selection_beam_width:
  "dssd_retained example_data coverage_quality 4 3 2 (beam_params 1)
     = Inr [[(''A'', True)], [(''B'', True)], [(''B'', False)]]
   \<and> dssd example_data coverage_quality 4 2 3 2 (beam_params 1) = Inr [[(''A'', True)]]"
  by code_simp

end
